theory Spec2Isabelle
  imports Main
begin

section \<open>Coordinate conversion utilities (droidrun/tools/coordinate.py)\<close>

text \<open>
  The module converts between normalized coordinates in \<open>[0, 1000]\<close> and absolute pixel
  coordinates. Python integers are unbounded, so they are \<open>int\<close> here. Exceptions are
  values of the type \<open>error\<close>; a function that may raise returns \<open>error + 'a\<close>.
  A Python \<open>str\<close> is a \<open>string\<close> whose characters stand for the code points 0 to 255.
\<close>

subsection \<open>Exceptions\<close>

text \<open>
  \<open>CoordinateError\<close> is the module's own exception and carries its message. The other
  three are raised by the Python built-ins the module calls: \<open>ValueError\<close> by \<open>int(str)\<close>
  and by tuple unpacking, \<open>OverflowError\<close> and \<open>ZeroDivisionError\<close> by \<open>int / int\<close>.
\<close>

datatype error =
    CoordinateError string
  | ValueError
  | OverflowError
  | ZeroDivisionError



subsection \<open>Python's \<open>int / int\<close> and \<open>int(float)\<close>\<close>

text \<open>
  \<open>a / b\<close> on two Python integers is true division: the exact quotient rounded to the
  nearest IEEE-754 binary64 number, ties to even; \<open>OverflowError\<close> when the rounded
  quotient does not fit a binary64, \<open>ZeroDivisionError\<close> when \<open>b = 0\<close>. A finite binary64
  is kept as \<open>PyFloat m k\<close>, standing for \<open>m * 2 ^ k\<close>.
\<close>

datatype pyfloat = PyFloat (mant: int) (expo: int)

fun bit_length :: "nat \<Rightarrow> nat" where
  "bit_length n = (if n = 0 then 0 else Suc (bit_length (n div 2)))"

declare bit_length.simps [simp del]

text \<open>\<open>n / d\<close> rounded to the nearest natural number, ties to the even one.\<close>

definition round_half_even :: "nat \<Rightarrow> nat \<Rightarrow> nat" where
  "round_half_even n d =
     (let q = n div d; r = n mod d in
      if 2 * r < d then q
      else if d < 2 * r then q + 1
      else if even q then q else q + 1)"

text \<open>For positive \<open>a\<close> and \<open>b\<close>, the \<open>e\<close> with \<open>2 ^ e \<le> a / b < 2 ^ (e + 1)\<close>.\<close>

definition floor_log2_quot :: "nat \<Rightarrow> nat \<Rightarrow> int" where
  "floor_log2_quot a b =
     (let d = int (bit_length a) - int (bit_length b) in
      if b * 2 ^ nat d \<le> a * 2 ^ nat (- d) then d else d - 1)"

text \<open>
  The quotient of two naturals, \<open>b\<close> positive, as a binary64: 53 significant bits in the
  normal range, multiples of \<open>2 ^ - 1074\<close> below \<open>2 ^ - 1022\<close>; \<open>None\<close> when the rounded
  quotient reaches \<open>2 ^ 1024\<close>.
\<close>

definition nat_truediv :: "nat \<Rightarrow> nat \<Rightarrow> (nat \<times> int) option" where
  "nat_truediv a b =
     (if a = 0 then Some (0, 0)
      else
        let e = floor_log2_quot a b;
            k = max e (- 1022) - 52;
            m = round_half_even (a * 2 ^ nat (- k)) (b * 2 ^ nat k)
        in if 1024 < int (bit_length m) + k then None else Some (m, k))"

definition int_truediv :: "int \<Rightarrow> int \<Rightarrow> error + pyfloat" where
  "int_truediv a b =
     (if b = 0 then Inl ZeroDivisionError
      else case nat_truediv (nat \<bar>a\<bar>) (nat \<bar>b\<bar>) of
             None \<Rightarrow> Inl OverflowError
           | Some (m, k) \<Rightarrow> Inr (PyFloat (sgn a * sgn b * int m) k))"

text \<open>\<open>int(x)\<close> on a finite float truncates toward zero.\<close>

definition int_of_float :: "pyfloat \<Rightarrow> int" where
  "int_of_float x =
     (if 0 \<le> expo x then mant x * 2 ^ nat (expo x)
      else sgn (mant x) * (\<bar>mant x\<bar> div 2 ^ nat (- expo x)))"

subsection \<open>Python's \<open>str(int)\<close>, \<open>int(str)\<close> and \<open>str.split(",")\<close>\<close>

definition digit_char :: "nat \<Rightarrow> char" where
  "digit_char d = ''0123456789'' ! d"

fun str_nat :: "nat \<Rightarrow> string" where
  "str_nat n = (if n < 10 then [digit_char n] else str_nat (n div 10) @ [digit_char (n mod 10)])"

declare str_nat.simps [simp del]

definition str_int :: "int \<Rightarrow> string" where
  "str_int i = (if i < 0 then CHR ''-'' # str_nat (nat (- i)) else str_nat (nat i))"









subsection \<open>ScreenSize\<close>

definition NORMALIZED_RANGE :: int where
  "NORMALIZED_RANGE = 1000"

record ScreenSize =
  width :: int
  height :: int





subsection \<open>Conversions\<close>

definition ctx_prefix :: "string \<Rightarrow> string" where
  "ctx_prefix context = (if context \<noteq> [] then context @ '': '' else [])"

definition validate_normalized_coords :: "int \<Rightarrow> int \<Rightarrow> string \<Rightarrow> error + unit" where
  "validate_normalized_coords x y context =
     (if \<not> (0 \<le> x \<and> x \<le> NORMALIZED_RANGE) then
        Inl (CoordinateError (ctx_prefix context @ ''X coordinate ('' @ str_int x
               @ '') out of valid range [0, '' @ str_int NORMALIZED_RANGE @ '']''))
      else if \<not> (0 \<le> y \<and> y \<le> NORMALIZED_RANGE) then
        Inl (CoordinateError (ctx_prefix context @ ''Y coordinate ('' @ str_int y
               @ '') out of valid range [0, '' @ str_int NORMALIZED_RANGE @ '']''))
      else Inr ())"

definition normalized_to_absolute :: "int \<Rightarrow> int \<Rightarrow> ScreenSize \<Rightarrow> error + (int \<times> int)" where
  "normalized_to_absolute norm_x norm_y screen_size =
     (case validate_normalized_coords norm_x norm_y ''normalized_to_absolute'' of
        Inl e \<Rightarrow> Inl e
      | Inr u \<Rightarrow>
     (case int_truediv (norm_x * width screen_size) NORMALIZED_RANGE of
        Inl e \<Rightarrow> Inl e
      | Inr fx \<Rightarrow>
     (case int_truediv (norm_y * height screen_size) NORMALIZED_RANGE of
        Inl e \<Rightarrow> Inl e
      | Inr fy \<Rightarrow> Inr (int_of_float fx, int_of_float fy))))"

definition absolute_to_normalized :: "int \<Rightarrow> int \<Rightarrow> ScreenSize \<Rightarrow> error + (int \<times> int)" where
  "absolute_to_normalized abs_x abs_y screen_size =
     (case int_truediv (abs_x * NORMALIZED_RANGE) (width screen_size) of
        Inl e \<Rightarrow> Inl e
      | Inr fx \<Rightarrow>
     (case int_truediv (abs_y * NORMALIZED_RANGE) (height screen_size) of
        Inl e \<Rightarrow> Inl e
      | Inr fy \<Rightarrow>
          Inr (max 0 (min NORMALIZED_RANGE (int_of_float fx)),
               max 0 (min NORMALIZED_RANGE (int_of_float fy)))))"

definition validate_normalized_area ::
  "int \<Rightarrow> int \<Rightarrow> int \<Rightarrow> int \<Rightarrow> string \<Rightarrow> error + unit" where
  "validate_normalized_area x1 y1 x2 y2 context =
     (case validate_normalized_coords x1 y1 (ctx_prefix context @ ''top-left'') of
        Inl e \<Rightarrow> Inl e
      | Inr u \<Rightarrow>
     (case validate_normalized_coords x2 y2 (ctx_prefix context @ ''bottom-right'') of
        Inl e \<Rightarrow> Inl e
      | Inr u \<Rightarrow>
          if x2 < x1 then
            Inl (CoordinateError (ctx_prefix context @ ''Invalid area: x1 ('' @ str_int x1
                   @ '') > x2 ('' @ str_int x2 @ ''). ''
                   @ ''Top-left X must be <= bottom-right X''))
          else if y2 < y1 then
            Inl (CoordinateError (ctx_prefix context @ ''Invalid area: y1 ('' @ str_int y1
                   @ '') > y2 ('' @ str_int y2 @ ''). ''
                   @ ''Top-left Y must be <= bottom-right Y''))
          else Inr ()))"

definition normalized_area_to_center ::
  "int \<Rightarrow> int \<Rightarrow> int \<Rightarrow> int \<Rightarrow> ScreenSize \<Rightarrow> error + (int \<times> int)" where
  "normalized_area_to_center x1 y1 x2 y2 screen_size =
     (case validate_normalized_area x1 y1 x2 y2 ''normalized_area_to_center'' of
        Inl e \<Rightarrow> Inl e
      | Inr u \<Rightarrow>
          (let center_norm_x = (x1 + x2) div 2;
               center_norm_y = (y1 + y2) div 2
           in normalized_to_absolute center_norm_x center_norm_y screen_size))"



subsection \<open>Integer tokens in the words of the specification\<close>


section \<open>Properties of the built-ins\<close>

subsection \<open>Bit length and rounding\<close>

lemma bit_length_less: "n < 2 ^ bit_length n"
proof (induction n rule: bit_length.induct)
  case (1 n)
  show ?case
  proof (cases "n = 0")
    case True
    then show ?thesis by simp
  next
    case False
    with 1 have "n div 2 < 2 ^ bit_length (n div 2)" by simp
    then have "n < 2 * 2 ^ bit_length (n div 2)" by linarith
    with False show ?thesis by (subst bit_length.simps) simp
  qed
qed

lemma bit_length_pos: "0 < n \<Longrightarrow> 0 < bit_length n"
  by (subst bit_length.simps) simp

lemma bit_length_ge: "0 < n \<Longrightarrow> 2 ^ (bit_length n - 1) \<le> n"
proof (induction n rule: bit_length.induct)
  case (1 n)
  then have n: "n \<noteq> 0" by simp
  have bl: "bit_length n = Suc (bit_length (n div 2))"
    using n by (subst bit_length.simps) simp
  show ?case
  proof (cases "n div 2 = 0")
    case True
    then have "bit_length (n div 2) = 0" by (subst bit_length.simps) simp
    with bl 1(2) show ?thesis by simp
  next
    case False
    then have pos: "0 < n div 2" by simp
    with 1(1) n have ih: "2 ^ (bit_length (n div 2) - 1) \<le> n div 2" by simp
    from bit_length_pos [OF pos] obtain j where j: "bit_length (n div 2) = Suc j"
      by (cases "bit_length (n div 2)") auto
    from ih j have "2 * 2 ^ j \<le> 2 * (n div 2)" by simp
    also have "\<dots> \<le> n" by simp
    finally show ?thesis using bl j by simp
  qed
qed

lemma bit_length_le: "n < 2 ^ j \<Longrightarrow> bit_length n \<le> j"
proof (rule ccontr)
  assume a: "n < 2 ^ j" and b: "\<not> bit_length n \<le> j"
  then have "j \<le> bit_length n - 1" by simp
  then have "(2::nat) ^ j \<le> 2 ^ (bit_length n - 1)" by (rule power_increasing) simp
  moreover have "0 < n" using b by (cases "n = 0") (simp_all add: bit_length.simps)
  ultimately have "2 ^ j \<le> n" using bit_length_ge [of n] by linarith
  with a show False by simp
qed

lemma bit_length_gt: "2 ^ j \<le> n \<Longrightarrow> j < bit_length n"
proof -
  assume "2 ^ j \<le> n"
  then have "(2::nat) ^ j < 2 ^ bit_length n" using bit_length_less [of n] by linarith
  then show ?thesis by (simp add: power_strict_increasing_iff)
qed

lemma rhe_lower: "n div d \<le> round_half_even n d"
  by (simp add: round_half_even_def Let_def)

lemma rhe_upper: "round_half_even n d \<le> n div d + 1"
  by (simp add: round_half_even_def Let_def)

lemma rhe_exact: "2 * (n mod d) < d \<Longrightarrow> round_half_even n d = n div d"
  by (simp add: round_half_even_def Let_def)


lemma bit_length_bounds:
  assumes "0 < n"
  obtains P where "bit_length n = Suc P" "2 ^ P \<le> n" "n < 2 * 2 ^ P"
proof -
  from bit_length_pos [OF assms] obtain P where P: "bit_length n = Suc P"
    by (cases "bit_length n") auto
  from bit_length_ge [OF assms] P have "2 ^ P \<le> n" by simp
  moreover from bit_length_less [of n] P have "n < 2 * 2 ^ P" by simp
  ultimately show ?thesis using P that by blast
qed

lemma flq_bounds:
  assumes a: "0 < a" and b: "0 < b"
  shows "b * 2 ^ nat (floor_log2_quot a b) \<le> a * 2 ^ nat (- floor_log2_quot a b)
       \<and> a * 2 ^ nat (- floor_log2_quot a b) < 2 * b * 2 ^ nat (floor_log2_quot a b)"
proof -
  from a obtain P where P: "bit_length a = Suc P" "2 ^ P \<le> a" "a < 2 * 2 ^ P"
    by (rule bit_length_bounds)
  from b obtain Q where Q: "bit_length b = Suc Q" "2 ^ Q \<le> b" "b < 2 * 2 ^ Q"
    by (rule bit_length_bounds)
  show ?thesis
  proof (cases "Q \<le> P")
    case True
    then obtain t where t: "P = Q + t" by (auto simp: le_iff_add)
    have d: "int (bit_length a) - int (bit_length b) = int t" using P Q t by simp
    have up: "a < 2 * b * 2 ^ t"
    proof -
      have "a < 2 * (2 ^ Q * 2 ^ t)" using P(3) t by (simp add: power_add)
      also have "\<dots> \<le> 2 * (b * 2 ^ t)" using Q(2) by simp
      finally show ?thesis by (simp add: mult.assoc)
    qed
    show ?thesis
    proof (cases "b * 2 ^ t \<le> a")
      case True
      then have "floor_log2_quot a b = int t" by (simp add: floor_log2_quot_def d)
      with True up show ?thesis by simp
    next
      case False
      then have e: "floor_log2_quot a b = int t - 1" by (simp add: floor_log2_quot_def d)
      show ?thesis
      proof (cases t)
        case 0
        have "b \<le> a * 2" using Q(3) P(2) t 0 by simp
        moreover have "a * 2 < 2 * b" using False 0 by simp
        ultimately show ?thesis using e 0 by simp
      next
        case (Suc t')
        have "b * 2 ^ t' < (2 * 2 ^ Q) * 2 ^ t'" using Q(3) by simp
        also have "\<dots> = 2 ^ P" using t Suc by (simp add: power_add)
        finally have "b * 2 ^ t' \<le> a" using P(2) by simp
        moreover have "a < 2 * b * 2 ^ t'" using False Suc by (simp add: mult.assoc mult.left_commute)
        ultimately show ?thesis using e Suc by simp
      qed
    qed
  next
    case False
    then obtain t where t: "Q = P + Suc t" by (metis less_iff_Suc_add not_le add_Suc_right)
    have d: "int (bit_length a) - int (bit_length b) = - int (Suc t)" using P Q t by simp
    have nd: "nat (int (bit_length a) - int (bit_length b)) = 0"
      "nat (- (int (bit_length a) - int (bit_length b))) = Suc t"
      unfolding d by simp_all
    show ?thesis
    proof (cases "b \<le> a * 2 ^ Suc t")
      case True
      then have e: "floor_log2_quot a b = - int (Suc t)"
        unfolding floor_log2_quot_def Let_def nd using d by simp
      have "a * 2 ^ Suc t < (2 * 2 ^ P) * 2 ^ Suc t" using P(3) by simp
      also have "\<dots> = 2 * 2 ^ Q" using t by (simp add: power_add)
      also have "\<dots> \<le> 2 * b" using Q(2) by simp
      finally have up: "a * 2 ^ Suc t < 2 * b" .
      have ne: "nat (floor_log2_quot a b) = 0" "nat (- floor_log2_quot a b) = Suc t"
        unfolding e by (simp_all add: nat_add_distrib)
      show ?thesis unfolding ne using True up by simp
    next
      case False
      then have e: "floor_log2_quot a b = - int (Suc (Suc t))"
        unfolding floor_log2_quot_def Let_def nd using d by simp
      have "b < 2 * 2 ^ Q" by (rule Q(3))
      also have "\<dots> = 2 ^ P * 2 ^ Suc (Suc t)" using t by (simp add: power_add)
      also have "\<dots> \<le> a * 2 ^ Suc (Suc t)" using P(2) by (rule mult_le_mono1)
      finally have "b \<le> a * 2 ^ Suc (Suc t)" by simp
      moreover have "a * 2 ^ Suc (Suc t) < 2 * b" using False by simp
      moreover have "nat (floor_log2_quot a b) = 0" "nat (- floor_log2_quot a b) = Suc (Suc t)"
        unfolding e by (simp_all add: nat_add_distrib)
      ultimately show ?thesis by simp
    qed
  qed
qed

lemma scaled_upper:
  assumes a: "0 < a" and b: "0 < b"
  defines "k \<equiv> max (floor_log2_quot a b) (- 1022) - 52"
  shows "a * 2 ^ nat (- k) < 2 ^ 53 * (b * 2 ^ nat k)"
proof -
  define e where "e = floor_log2_quot a b"
  have B1: "b * 2 ^ nat e \<le> a * 2 ^ nat (- e)" and B2: "a * 2 ^ nat (- e) < 2 * b * 2 ^ nat e"
    using flq_bounds [OF a b] by (simp_all add: e_def)
  have k: "k = max e (- 1022) - 52" by (simp add: k_def e_def)
  consider (big) "52 \<le> e" | (mid) "0 \<le> e" "e < 52" | (neg) "- 1022 \<le> e" "e < 0" | (sub) "e < - 1022"
    by linarith
  then show ?thesis
  proof cases
    case big
    define j where "j = nat (e - 52)"
    have ne: "nat e = j + 52" "nat (- e) = 0" "nat k = j" "nat (- k) = 0"
      using big by (simp_all add: j_def k)
    have "a < 2 * b * (2 ^ j * 2 ^ 52)" using B2 unfolding ne by (simp add: power_add)
    then show ?thesis unfolding ne by simp
  next
    case mid
    define j where "j = nat e"
    define K where "K = nat (52 - e)"
    have ne: "nat e = j" "nat (- e) = 0" "nat k = 0" "nat (- k) = K"
      using mid by (simp_all add: j_def K_def k)
    have jK: "j + K = 52" using mid by (simp add: j_def K_def)
    have "a < 2 * b * 2 ^ j" using B2 unfolding ne by simp
    then have "a * 2 ^ K < (2 * b * 2 ^ j) * 2 ^ K" by simp
    also have "\<dots> = 2 * b * 2 ^ (j + K)" by (simp add: power_add)
    finally show ?thesis unfolding ne jK by simp
  next
    case neg
    define j where "j = nat (- e)"
    have ne: "nat e = 0" "nat (- e) = j" "nat k = 0" "nat (- k) = 52 + j"
      using neg by (simp_all add: j_def k)
    have "a * 2 ^ j < 2 * b" using B2 unfolding ne by simp
    then have "(a * 2 ^ j) * 2 ^ 52 < (2 * b) * 2 ^ 52" by (rule mult_less_mono1) simp
    then show ?thesis unfolding ne by (simp add: power_add mult.assoc mult.left_commute)
  next
    case sub
    define i where "i = nat (- e - 1023)"
    have ne: "nat e = 0" "nat (- e) = 1023 + i" "nat k = 0" "nat (- k) = 1023 + 51"
      using sub by (simp_all add: i_def k)
    have "a * 2 ^ 1023 * 1 \<le> a * 2 ^ 1023 * 2 ^ i" by (rule mult_le_mono2) simp
    also have "\<dots> < 2 * b" using B2 unfolding ne by (simp add: power_add mult.assoc)
    finally have "a * 2 ^ 1023 < 2 * b" by simp
    then have "(a * 2 ^ 1023) * 2 ^ 51 < (2 * b) * 2 ^ 51" by (rule mult_less_mono1) simp
    also have "\<dots> \<le> 2 ^ 53 * b" by simp
    finally show ?thesis unfolding ne power_add by (simp add: mult.assoc)
  qed
qed

lemma scaled_lower:
  assumes a: "0 < a" and b: "0 < b" and n: "- 1022 \<le> floor_log2_quot a b"
  defines "k \<equiv> floor_log2_quot a b - 52"
  shows "2 ^ 52 * (b * 2 ^ nat k) \<le> a * 2 ^ nat (- k)"
proof -
  define e where "e = floor_log2_quot a b"
  have B1: "b * 2 ^ nat e \<le> a * 2 ^ nat (- e)"
    using flq_bounds [OF a b] by (simp_all add: e_def)
  have k: "k = e - 52" by (simp add: k_def e_def)
  consider (big) "52 \<le> e" | (mid) "0 \<le> e" "e < 52" | (neg) "e < 0"
    by linarith
  then show ?thesis
  proof cases
    case big
    define j where "j = nat (e - 52)"
    have ne: "nat e = j + 52" "nat (- e) = 0" "nat k = j" "nat (- k) = 0"
      using big by (simp_all add: j_def k)
    have "b * (2 ^ j * 2 ^ 52) \<le> a" using B1 unfolding ne by (simp add: power_add)
    then show ?thesis unfolding ne by simp
  next
    case mid
    define j where "j = nat e"
    define K where "K = nat (52 - e)"
    have ne: "nat e = j" "nat (- e) = 0" "nat k = 0" "nat (- k) = K"
      using mid by (simp_all add: j_def K_def k)
    have jK: "j + K = 52" using mid by (simp add: j_def K_def)
    have "b * 2 ^ j \<le> a" using B1 unfolding ne by simp
    then have "(b * 2 ^ j) * 2 ^ K \<le> a * 2 ^ K" by (rule mult_le_mono1)
    moreover have "(b * 2 ^ j) * 2 ^ K = b * 2 ^ (j + K)" by (simp add: power_add)
    ultimately show ?thesis unfolding ne jK by simp
  next
    case neg
    define j where "j = nat (- e)"
    have ne: "nat e = 0" "nat (- e) = j" "nat k = 0" "nat (- k) = 52 + j"
      using neg by (simp_all add: j_def k)
    have "b \<le> a * 2 ^ j" using B1 unfolding ne by simp
    then have "b * 2 ^ 52 \<le> (a * 2 ^ j) * 2 ^ 52" by (rule mult_le_mono1)
    then show ?thesis unfolding ne by (simp add: power_add mult.assoc mult.left_commute)
  qed
qed

lemma rhe_scaled_div:
  assumes b: "0 < b" and bK: "b < 2 * X" and X: "0 < X"
  shows "round_half_even (a * X) b div X = a div b"
proof -
  define q where "q = a div b"
  define r where "r = a mod b"
  define Nq where "Nq = (a * X) div b"
  define Nr where "Nr = (a * X) mod b"
  have a: "a = q * b + r" and r: "r < b" using b by (simp_all add: q_def r_def)
  have N: "a * X = Nq * b + Nr" and Nr: "Nr < b" using b by (simp_all add: Nq_def Nr_def)
  have lowN: "q * X \<le> Nq"
  proof -
    have "(q * X) * b \<le> a * X" using a by (simp add: algebra_simps)
    then have "((q * X) * b) div b \<le> (a * X) div b" by (rule div_le_mono)
    then show ?thesis using b by (simp add: Nq_def)
  qed
  have aX: "a * X + X \<le> Suc q * X * b"
  proof -
    have "a + 1 \<le> Suc q * b" using a r by simp
    then have "(a + 1) * X \<le> (Suc q * b) * X" by (rule mult_le_mono1)
    then show ?thesis by (simp add: algebra_simps)
  qed
  have NqS: "Nq < Suc q * X"
  proof -
    have "Nq * b \<le> a * X" using N by simp
    also have "\<dots> < Suc q * X * b" using aX X by linarith
    finally show ?thesis by simp
  qed
  have up: "round_half_even (a * X) b < Suc q * X"
  proof (cases "Suc Nq < Suc q * X")
    case True
    then show ?thesis using rhe_upper [of "a * X" b] by (simp add: Nq_def)
  next
    case False
    then have "Suc q * X \<le> Suc Nq" by simp
    then have "Suc q * X * b \<le> Suc Nq * b" by (rule mult_le_mono1)
    with aX N have "Nr + X \<le> b" by simp
    with bK have "2 * Nr < b" by linarith
    then have "round_half_even (a * X) b = Nq"
      unfolding Nr_def Nq_def by (rule rhe_exact)
    with NqS show ?thesis by simp
  qed
  have low: "q * X \<le> round_half_even (a * X) b"
    using lowN rhe_lower [of "a * X" b] by (simp add: Nq_def)
  from low up have "round_half_even (a * X) b div X = q"
    by (intro div_nat_eqI) (simp_all add: mult.commute)
  then show ?thesis by (simp add: q_def)
qed

lemma int_of_float_nonneg:
  "int_of_float (PyFloat (int m) k) =
     (if 0 \<le> k then int m * 2 ^ nat k else int (m div 2 ^ nat (- k)))"
proof (cases "m = 0")
  case True
  then show ?thesis by (simp add: int_of_float_def)
next
  case False
  then have "sgn (int m) = 1" by simp
  then show ?thesis by (simp add: int_of_float_def zdiv_int)
qed

lemma mantissa_le:
  assumes a: "0 < a" and b: "0 < b"
  defines "k \<equiv> max (floor_log2_quot a b) (- 1022) - 52"
  shows "round_half_even (a * 2 ^ nat (- k)) (b * 2 ^ nat k) \<le> 2 ^ 53"
proof -
  have "a * 2 ^ nat (- k) < 2 ^ 53 * (b * 2 ^ nat k)"
    unfolding k_def using a b by (rule scaled_upper)
  then have "(a * 2 ^ nat (- k)) div (b * 2 ^ nat k) < 2 ^ 53"
    by (simp add: less_mult_imp_div_less mult.commute)
  then show ?thesis
    using rhe_upper [of "a * 2 ^ nat (- k)" "b * 2 ^ nat k"] by linarith
qed

lemma bit_length_mantissa:
  assumes "m \<le> 2 ^ 53"
  shows "bit_length m \<le> 54"
proof (rule bit_length_le)
  have "(2::nat) ^ 53 < 2 ^ 54" by simp
  with assms show "m < 2 ^ 54" by linarith
qed

lemma flq_le_1022:
  assumes a: "0 < a" and b: "0 < b" and lt: "a < 2 ^ 1023 * b"
  shows "floor_log2_quot a b \<le> 1022"
proof (rule ccontr)
  assume "\<not> floor_log2_quot a b \<le> 1022"
  then have e: "1023 \<le> floor_log2_quot a b" by simp
  define j where "j = nat (floor_log2_quot a b - 1023)"
  define X :: nat where "X = 2 ^ 1023"
  have ne: "nat (floor_log2_quot a b) = 1023 + j" "nat (- floor_log2_quot a b) = 0"
    using e by (simp_all add: j_def)
  have pw: "2 ^ (1023 + j) = X * 2 ^ j" unfolding X_def by (rule power_add)
  have le: "b * (X * 2 ^ j) \<le> a" using flq_bounds [OF a b] unfolding ne pw by simp
  have "b * X \<le> b * (X * 2 ^ j)" by simp
  also note le
  finally have "b * X \<le> a" .
  moreover have "a < X * b" using lt unfolding X_def .
  ultimately show False by (simp add: mult.commute)
qed

lemma nat_truediv_no_overflow:
  assumes b: "0 < b" and lt: "a < 2 ^ 1023 * b"
  shows "\<exists>m k. nat_truediv a b = Some (m, k)"
proof (cases "a = 0")
  case True
  then show ?thesis by (simp add: nat_truediv_def)
next
  case False
  then have a: "0 < a" by simp
  define k where "k = max (floor_log2_quot a b) (- 1022) - 52"
  define m where "m = round_half_even (a * 2 ^ nat (- k)) (b * 2 ^ nat k)"
  have "m \<le> 2 ^ 53" unfolding m_def k_def using a b by (rule mantissa_le)
  then have "bit_length m \<le> 54" by (rule bit_length_mantissa)
  moreover have "k \<le> 970" using flq_le_1022 [OF a b lt] by (simp add: k_def)
  ultimately have "\<not> 1024 < int (bit_length m) + k" by linarith
  then have "nat_truediv a b = Some (m, k)"
    using False by (simp add: nat_truediv_def Let_def m_def k_def)
  then show ?thesis by blast
qed

lemma flq_ge_1024:
  assumes a: "0 < a" and b: "0 < b" and ge: "2 ^ 1024 * b \<le> a"
  shows "1024 \<le> floor_log2_quot a b"
proof (rule ccontr)
  assume n: "\<not> 1024 \<le> floor_log2_quot a b"
  define X :: nat where "X = 2 ^ 1023"
  define Y :: nat where "Y = 2 ^ nat (floor_log2_quot a b)"
  define Z :: nat where "Z = 2 ^ nat (- floor_log2_quot a b)"
  have B2: "a * Z < 2 * b * Y"
    using flq_bounds [OF a b] by (simp add: Y_def Z_def)
  have "a * 1 \<le> a * Z" unfolding Z_def by (rule mult_le_mono2) simp
  moreover have "nat (floor_log2_quot a b) \<le> 1023" using n by simp
  then have "Y \<le> X" unfolding X_def Y_def by (rule power_increasing) simp
  then have "(2 * b) * Y \<le> (2 * b) * X" by (rule mult_le_mono2)
  ultimately have lt: "a < (2 * b) * X" using B2 by linarith
  have "(2::nat) ^ 1024 = 2 * X" unfolding X_def by simp
  with ge have "2 * X * b \<le> a" by simp
  with lt show False by (simp add: ac_simps)
qed

lemma nat_truediv_overflow:
  assumes b: "0 < b" and ge: "2 ^ 1024 * b \<le> a"
  shows "nat_truediv a b = None"
proof -
  have "(0::nat) < 2 ^ 1024 * b" using b by simp
  with ge have a: "0 < a" by linarith
  define e where "e = floor_log2_quot a b"
  define k where "k = max e (- 1022) - 52"
  define m where "m = round_half_even (a * 2 ^ nat (- k)) (b * 2 ^ nat k)"
  have e: "1024 \<le> e" unfolding e_def using a b ge by (rule flq_ge_1024)
  then have k: "k = e - 52" by (simp add: k_def)
  have "2 ^ 52 * (b * 2 ^ nat k) \<le> a * 2 ^ nat (- k)"
    unfolding k e_def using a b by (rule scaled_lower) (use e in \<open>simp add: e_def\<close>)
  then have "2 ^ 52 \<le> (a * 2 ^ nat (- k)) div (b * 2 ^ nat k)"
    using b by (simp add: less_eq_div_iff_mult_less_eq)
  then have "2 ^ 52 \<le> m" using rhe_lower [of "a * 2 ^ nat (- k)" "b * 2 ^ nat k"]
    unfolding m_def by linarith
  then have "52 < bit_length m" by (rule bit_length_gt)
  then have "1024 < int (bit_length m) + k" using e k by linarith
  then show ?thesis using a by (simp add: nat_truediv_def Let_def m_def k_def e_def)
qed

lemma nat_truediv_exact:
  assumes b: "0 < b" and lt: "a < 2 ^ 53"
  shows "\<exists>m k. nat_truediv a b = Some (m, k) \<and> int_of_float (PyFloat (int m) k) = int (a div b)"
proof (cases "a = 0")
  case True
  then show ?thesis by (simp add: nat_truediv_def int_of_float_def)
next
  case False
  then have a: "0 < a" by simp
  define e where "e = floor_log2_quot a b"
  define k where "k = max e (- 1022) - 52"
  define m where "m = round_half_even (a * 2 ^ nat (- k)) (b * 2 ^ nat k)"
  have m53: "m \<le> 2 ^ 53" unfolding m_def k_def e_def using a b by (rule mantissa_le)
  then have bl: "bit_length m \<le> 54" by (rule bit_length_mantissa)
  have U: "a * 2 ^ nat (- k) < 2 ^ 53 * (b * 2 ^ nat k)"
    unfolding k_def e_def using a b by (rule scaled_upper)
  have val: "int_of_float (PyFloat (int m) k) = int (a div b) \<and> k \<le> 0"
  proof (cases "e < - 1022")
    case True
    then have k: "k = - 1074" by (simp add: k_def)
    have nk: "nat k = 0" "nat (- k) = 1074" by (simp_all add: k)
    have "a * 2 ^ 53 \<le> a * 2 ^ 1074" by (rule mult_le_mono2) simp
    also have "\<dots> < 2 ^ 53 * b" using U unfolding nk by simp
    finally have "a < b" by simp
    then have q: "a div b = 0" by simp
    have "(2::nat) ^ 53 < 2 ^ 1074" by simp
    with m53 have "m < 2 ^ 1074" by linarith
    then have "m div 2 ^ 1074 = 0" by simp
    then show ?thesis unfolding int_of_float_nonneg q nk using k by simp
  next
    case False
    then have k: "k = e - 52" by (simp add: k_def)
    have L: "2 ^ 52 * (b * 2 ^ nat k) \<le> a * 2 ^ nat (- k)"
      unfolding k e_def using a b by (rule scaled_lower) (use False in \<open>simp add: e_def\<close>)
    show ?thesis
    proof (cases "0 \<le> k")
      case True
      then have nk: "nat (- k) = 0" by simp
      have "2 ^ 52 * (b * 2 ^ nat k) < 2 ^ 53" using L lt unfolding nk by simp
      then have "b * 2 ^ nat k < 2" by simp
      moreover have "0 < b * 2 ^ nat k" using b by simp
      ultimately have one: "b * 2 ^ nat k = 1" by linarith
      then have "b = 1" "nat k = 0" by simp_all
      with True have k0: "k = 0" by simp
      have "m = a" unfolding m_def nk one by (simp add: round_half_even_def)
      then show ?thesis unfolding int_of_float_nonneg using k0 \<open>b = 1\<close> by simp
    next
      case False
      then have nk: "nat k = 0" by simp
      define K where "K = nat (- k)"
      have "2 ^ 52 * b \<le> a * 2 ^ K" using L unfolding nk K_def by simp
      also have "\<dots> < 2 ^ 53 * 2 ^ K" using lt by simp
      finally have "b < 2 * 2 ^ K" by simp
      with b have "round_half_even (a * 2 ^ K) b div 2 ^ K = a div b"
        by (intro rhe_scaled_div) simp_all
      then have "m div 2 ^ nat (- k) = a div b" unfolding m_def nk K_def by simp
      then show ?thesis unfolding int_of_float_nonneg using False by simp
    qed
  qed
  then have "\<not> 1024 < int (bit_length m) + k" using bl by linarith
  then have "nat_truediv a b = Some (m, k)"
    using False by (simp add: nat_truediv_def Let_def m_def k_def e_def)
  with val show ?thesis by blast
qed

subsection \<open>True division and truncation on \<open>int\<close>\<close>

lemma int_truediv_exact:
  assumes a0: "0 \<le> a" and lt: "a < 2 ^ 53" and b: "0 < b"
  shows "\<exists>f. int_truediv a b = Inr f \<and> int_of_float f = a div b"
proof (cases "a = 0")
  case True
  with b show ?thesis by (simp add: int_truediv_def nat_truediv_def int_of_float_def)
next
  case False
  with a0 have a: "0 < a" by simp
  have "int (nat a) < int (2 ^ 53)" using a lt by simp
  then have "nat a < 2 ^ 53" by (simp only: of_nat_less_iff)
  moreover have "0 < nat b" using b by simp
  ultimately obtain m k where mk: "nat_truediv (nat a) (nat b) = Some (m, k)"
    and v: "int_of_float (PyFloat (int m) k) = int (nat a div nat b)"
    using nat_truediv_exact [of "nat b" "nat a"] by blast
  have "int (nat a div nat b) = a div b" using a b by (simp add: zdiv_int)
  with mk v a b show ?thesis by (simp add: int_truediv_def)
qed

lemma int_truediv_ok:
  assumes b: "0 < b" and lt: "\<bar>a\<bar> < 2 ^ 1023 * b"
  shows "\<exists>f. int_truediv a b = Inr f"
proof -
  have "int (nat \<bar>a\<bar>) < int (2 ^ 1023 * nat \<bar>b\<bar>)" using b lt by simp
  then have "nat \<bar>a\<bar> < 2 ^ 1023 * nat \<bar>b\<bar>" by (simp only: of_nat_less_iff)
  moreover have "0 < nat \<bar>b\<bar>" using b by simp
  ultimately obtain m k where "nat_truediv (nat \<bar>a\<bar>) (nat \<bar>b\<bar>) = Some (m, k)"
    using nat_truediv_no_overflow [of "nat \<bar>b\<bar>" "nat \<bar>a\<bar>"] by blast
  with b show ?thesis by (simp add: int_truediv_def)
qed

lemma int_truediv_overflow:
  assumes b: "0 < b" and ge: "2 ^ 1024 * b \<le> a"
  shows "int_truediv a b = Inl OverflowError"
proof -
  have "0 \<le> a" using b ge by (smt (verit) mult_nonneg_nonneg zero_le_power)
  have "int (2 ^ 1024 * nat \<bar>b\<bar>) \<le> int (nat \<bar>a\<bar>)" using b ge \<open>0 \<le> a\<close> by simp
  then have "2 ^ 1024 * nat \<bar>b\<bar> \<le> nat \<bar>a\<bar>" by (simp only: of_nat_le_iff)
  moreover have "0 < nat \<bar>b\<bar>" using b by simp
  ultimately have "nat_truediv (nat \<bar>a\<bar>) (nat \<bar>b\<bar>) = None"
    by (intro nat_truediv_overflow)
  with b show ?thesis by (simp add: int_truediv_def)
qed

lemma validate_normalized_coords_ok:
  "0 \<le> x \<Longrightarrow> x \<le> 1000 \<Longrightarrow> 0 \<le> y \<Longrightarrow> y \<le> 1000 \<Longrightarrow>
   validate_normalized_coords x y c = Inr ()"
  by (simp add: validate_normalized_coords_def NORMALIZED_RANGE_def)

lemma normalized_to_absolute_exact:
  assumes "0 \<le> x" "x \<le> 1000" "0 \<le> y" "y \<le> 1000"
    and w: "0 \<le> width S" and h: "0 \<le> height S"
    and xw: "x * width S < 2 ^ 53" and yh: "y * height S < 2 ^ 53"
  shows "normalized_to_absolute x y S = Inr (x * width S div 1000, y * height S div 1000)"
proof -
  have "0 \<le> x * width S" using assms by simp
  with xw obtain fx where fx: "int_truediv (x * width S) 1000 = Inr fx"
    "int_of_float fx = x * width S div 1000"
    using int_truediv_exact [of "x * width S" 1000] by auto
  have "0 \<le> y * height S" using assms by simp
  with yh obtain fy where fy: "int_truediv (y * height S) 1000 = Inr fy"
    "int_of_float fy = y * height S div 1000"
    using int_truediv_exact [of "y * height S" 1000] by auto
  show ?thesis
    unfolding normalized_to_absolute_def
    using validate_normalized_coords_ok [OF assms(1-4)] fx fy
    by (simp add: NORMALIZED_RANGE_def)
qed

subsection \<open>Error bounds of the division and the round trip\<close>

lemma rhe_ge: "M * d \<le> n \<Longrightarrow> 0 < d \<Longrightarrow> M \<le> round_half_even n d"
proof -
  assume "M * d \<le> n" "0 < d"
  then have "M \<le> n div d" by (simp add: less_eq_div_iff_mult_less_eq)
  with rhe_lower [of n d] show ?thesis by linarith
qed

lemma rhe_le:
  assumes d: "0 < d" and le: "n \<le> M * d"
  shows "round_half_even n d \<le> M"
proof (cases "n div d < M")
  case True
  with rhe_upper [of n d] show ?thesis by linarith
next
  case False
  have "n div d \<le> (M * d) div d" using le by (rule div_le_mono)
  then have q: "n div d = M" using d False by simp
  have "n = (n div d) * d + n mod d" by simp
  with q le have "n mod d = 0" by (metis add_diff_cancel_left' diff_is_0_eq')
  then have "round_half_even n d = n div d" using d by (intro rhe_exact) simp
  with q show ?thesis by simp
qed

lemma rhe_err:
  assumes d: "0 < d"
  shows "2 * (d * round_half_even n d) \<le> 2 * n + d"
    and "2 * n \<le> 2 * (d * round_half_even n d) + d"
proof -
  define q where "q = n div d"
  define r where "r = n mod d"
  have n: "n = d * q + r" and r: "r < d" using d by (simp_all add: q_def r_def)
  have cases: "round_half_even n d = q \<and> 2 * r \<le> d \<or> round_half_even n d = q + 1 \<and> d \<le> 2 * r"
    by (auto simp: round_half_even_def Let_def q_def r_def)
  have e: "d * (q + 1) = d * q + d" by (simp add: algebra_simps)
  show "2 * (d * round_half_even n d) \<le> 2 * n + d"
    using cases n r e by auto
  show "2 * n \<le> 2 * (d * round_half_even n d) + d"
    using cases n r e by auto
qed

lemma nat_truediv_SomeD:
  assumes "0 < a" and "nat_truediv a b = Some (m, k)"
  shows "k = max (floor_log2_quot a b) (- 1022) - 52"
    and "m = round_half_even (a * 2 ^ nat (- k)) (b * 2 ^ nat k)"
  using assms by (auto simp: nat_truediv_def Let_def split: if_splits)

lemma nat_truediv_sharp:
  assumes b: "0 < b" and a: "0 < a" and r: "nat_truediv a b = Some (m, k)" and k: "k < 0"
  shows "n * b \<le> a \<Longrightarrow> n \<le> m div 2 ^ nat (- k)"
    and "2 * a \<le> (2 * n + 1) * b \<Longrightarrow> m div 2 ^ nat (- k) \<le> n"
proof -
  define K where "K = nat (- k)"
  define X :: nat where "X = 2 ^ K"
  from k obtain K' where K': "K = Suc K'" by (cases K) (auto simp: K_def)
  define X' :: nat where "X' = 2 ^ K'"
  have X: "X = 2 * X'" "0 < X" "0 < X'" by (simp_all add: X_def X'_def K')
  have nk: "nat k = 0" using k by simp
  have m: "m = round_half_even (a * X) b"
    using nat_truediv_SomeD(2) [OF a r] by (simp add: nk K_def X_def)
  {
    assume "n * b \<le> a"
    then have "(n * b) * X \<le> a * X" by (rule mult_le_mono1)
    then have "(n * X) * b \<le> a * X" by (simp add: ac_simps)
    then have "n * X \<le> m" unfolding m using b by (rule rhe_ge)
    then show "n \<le> m div 2 ^ nat (- k)"
      using X(2) by (simp add: less_eq_div_iff_mult_less_eq K_def [symmetric] X_def [symmetric])
  }
  {
    assume "2 * a \<le> (2 * n + 1) * b"
    then have F: "(2 * a) * X' \<le> ((2 * n + 1) * b) * X'" by (rule mult_le_mono1)
    have e1: "(2 * a) * X' = a * X" by (simp add: X(1))
    have e2: "((2 * n + 1) * b) * X' = ((2 * n + 1) * X') * b" by (simp only: ac_simps)
    from F have "a * X \<le> ((2 * n + 1) * X') * b" unfolding e1 e2 .
    with b have "m \<le> (2 * n + 1) * X'" unfolding m by (rule rhe_le)
    also have "\<dots> < (n + 1) * X" using X(3) by (simp add: X(1) algebra_simps)
    finally have "m div X < n + 1" using X(2) by (simp add: div_less_iff_less_mult)
    then show "m div 2 ^ nat (- k) \<le> n"
      by (simp add: K_def [symmetric] X_def [symmetric])
  }
qed

lemma nat_truediv_crude:
  assumes a: "0 < a" and b: "0 < b" and r: "nat_truediv a b = Some (m, k)"
  defines "T \<equiv> (if 0 \<le> k then m * 2 ^ nat k else m div 2 ^ nat (- k))"
  defines "U \<equiv> (2::nat) ^ nat k"
  shows "T * b \<le> a + b * U" and "a < T * b + b * U" and "0 \<le> k \<Longrightarrow> 2 ^ 52 * (b * U) \<le> a"
proof -
  note kd = nat_truediv_SomeD(1) [OF a r] and md = nat_truediv_SomeD(2) [OF a r]
  have U: "0 < U" by (simp add: U_def)
  have main: "T * b \<le> a + b * U \<and> a < T * b + b * U"
  proof (cases "0 \<le> k")
    case True
    then have nk: "nat (- k) = 0" by simp
    have m: "m = round_half_even a (b * U)" using md by (simp add: nk U_def)
    have T: "T * b = (b * U) * m" using True by (simp add: T_def U_def ac_simps)
    have D: "0 < b * U" using b U by simp
    from rhe_err [OF D, of a] have "2 * (T * b) \<le> 2 * a + b * U" "2 * a \<le> 2 * (T * b) + b * U"
      unfolding T m by simp_all
    with D show ?thesis by linarith
  next
    case False
    then have k: "k < 0" by simp
    then have T: "T = m div 2 ^ nat (- k)" and U1: "U = 1" by (simp_all add: T_def U_def)
    have "(a div b) * b \<le> a" by simp
    then have lo: "a div b \<le> T" unfolding T by (rule nat_truediv_sharp(1) [OF b a r k])
    have lt0: "a < (a div b) * b + b"
      using mod_less_divisor [OF b, of a] div_mult_mod_eq [of a b] by linarith
    then have lt: "a < (a div b + 1) * b" by (simp add: algebra_simps)
    have eq: "(2 * (a div b + 1) + 1) * b = 2 * ((a div b) * b) + 3 * b"
      by (simp add: algebra_simps)
    have "2 * a \<le> 2 * ((a div b) * b) + 3 * b" using lt0 by linarith
    then have "2 * a \<le> (2 * (a div b + 1) + 1) * b" unfolding eq .
    then have hi: "T \<le> a div b + 1" unfolding T by (rule nat_truediv_sharp(2) [OF b a r k])
    from lo have "(a div b) * b \<le> T * b" by (rule mult_le_mono1)
    with lt0 have 2: "a < T * b + b" by linarith
    from hi have "T * b \<le> (a div b + 1) * b" by (rule mult_le_mono1)
    also have "\<dots> = (a div b) * b + b" by (simp add: algebra_simps)
    also have "\<dots> \<le> a + b" by simp
    finally show ?thesis using 2 by (simp add: U1)
  qed
  then show "T * b \<le> a + b * U" and "a < T * b + b * U" by simp_all
  show "2 ^ 52 * (b * U) \<le> a" if k0: "0 \<le> k"
  proof -
    have e: "52 \<le> floor_log2_quot a b" using kd k0 by simp
    then have k: "k = floor_log2_quot a b - 52" using kd by simp
    have "2 ^ 52 * (b * 2 ^ nat k) \<le> a * 2 ^ nat (- k)"
      unfolding k using a b by (rule scaled_lower) (use e in simp)
    then show ?thesis using k0 by (simp add: U_def)
  qed
qed

lemma nat_truediv_zero: "nat_truediv 0 b = Some (m, k) \<Longrightarrow> m = 0 \<and> k = 0"
  by (simp add: nat_truediv_def)

lemma first_division_bounds:
  assumes x: "x \<le> 1000" and w: "1000 \<le> w"
    and r1: "nat_truediv (x * w) 1000 = Some (m1, k1)"
  defines "T1 \<equiv> (if 0 \<le> k1 then m1 * 2 ^ nat k1 else m1 div 2 ^ nat (- k1))"
  shows "x * w \<le> T1 * 1000 + w" and "2 * (T1 * 1000) \<le> (2 * x + 1) * w"
proof -
  define A where "A = x * w"
  define B where "B = T1 * 1000"
  have e: "(2 * x + 1) * w = 2 * A + w" by (simp add: A_def algebra_simps)
  have Aw: "A \<le> 1000 * w" unfolding A_def using x by (rule mult_le_mono1)
  have "A \<le> B + w \<and> 2 * B \<le> 2 * A + w"
  proof (cases "A = 0")
    case True
    with r1 have "m1 = 0 \<and> k1 = 0" by (auto simp: A_def dest: nat_truediv_zero)
    then have "B = 0" by (simp add: B_def T1_def)
    with True show ?thesis by simp
  next
    case False
    then have A0: "0 < A" by simp
    show ?thesis
    proof (cases "A < 2 ^ 53")
      case True
      have "(0::nat) < 1000" by simp
      from nat_truediv_exact [OF this True] r1
      have "int_of_float (PyFloat (int m1) k1) = int (A div 1000)" by (auto simp: A_def)
      moreover have "int_of_float (PyFloat (int m1) k1) = int T1"
        by (simp add: int_of_float_nonneg T1_def)
      ultimately have "int T1 = int (A div 1000)" by simp
      then have T: "T1 = A div 1000" by (simp only: of_nat_eq_iff)
      have "A mod 1000 < 1000" by simp
      moreover have "A = B + A mod 1000" unfolding B_def T by simp
      ultimately show ?thesis using w by linarith
    next
      case False
      define U :: nat where "U = 2 ^ nat k1"
      have F1: "B \<le> A + 1000 * U" and F2: "A < B + 1000 * U"
        using nat_truediv_crude(1,2) [OF A0 _ r1 [folded A_def]]
        by (simp_all add: B_def T1_def U_def)
      have F3: "2 ^ 52 * (1000 * U) \<le> A" if "0 \<le> k1"
        using nat_truediv_crude(3) [OF A0 _ r1 [folded A_def] that] by (simp add: U_def)
      have "2000 * U \<le> w"
      proof (cases "0 \<le> k1")
        case True
        from F3 [OF True] Aw show ?thesis by simp
      next
        case False
        then have "U = 1" by (simp add: U_def)
        moreover have "(2::nat) ^ 53 \<le> 1000 * w" using \<open>\<not> A < 2 ^ 53\<close> Aw by linarith
        ultimately show ?thesis by simp
      qed
      with F1 F2 show ?thesis by linarith
    qed
  qed
  then show "x * w \<le> T1 * 1000 + w" and "2 * (T1 * 1000) \<le> (2 * x + 1) * w"
    unfolding e by (simp_all add: A_def B_def)
qed

lemma second_division_bounds:
  assumes x: "x \<le> 1000" and w: "0 < w"
    and K1: "x * w \<le> B + w" and K2: "2 * B \<le> (2 * x + 1) * w"
    and r2: "nat_truediv B w = Some (m2, k2)"
  defines "T2 \<equiv> (if 0 \<le> k2 then m2 * 2 ^ nat k2 else m2 div 2 ^ nat (- k2))"
  shows "x \<le> T2 + 1" and "T2 \<le> x"
proof -
  have "x \<le> T2 + 1 \<and> T2 \<le> x"
  proof (cases "B = 0")
    case True
    with r2 have "m2 = 0 \<and> k2 = 0" by (auto dest: nat_truediv_zero)
    then have T: "T2 = 0" by (simp add: T2_def)
    from K1 True have "x * w \<le> 1 * w" by simp
    then have "x \<le> 1" using w by (simp only: mult_le_cancel2)
    with T show ?thesis by simp
  next
    case False
    then have B0: "0 < B" by simp
    have k: "k2 < 0"
    proof (rule ccontr)
      assume "\<not> k2 < 0"
      then have k0: "0 \<le> k2" by simp
      define U :: nat where "U = 2 ^ nat k2"
      have "2 ^ 52 * (w * U) \<le> B"
        using nat_truediv_crude(3) [OF B0 w r2 k0] by (simp add: U_def)
      moreover have "w * 1 \<le> w * U" by (rule mult_le_mono2) (simp add: U_def)
      moreover have "(2 * x + 1) * w \<le> 2001 * w" by (rule mult_le_mono1) (use x in simp)
      ultimately show False using K2 w by simp
    qed
    then have T: "T2 = m2 div 2 ^ nat (- k2)" by (simp add: T2_def)
    have hi: "T2 \<le> x" unfolding T using K2 by (rule nat_truediv_sharp(2) [OF w B0 r2 k])
    have lo: "x \<le> T2 + 1"
    proof (cases x)
      case 0
      then show ?thesis by simp
    next
      case (Suc x')
      with K1 have "x' * w \<le> B" by simp
      then have "x' \<le> T2" unfolding T by (rule nat_truediv_sharp(1) [OF w B0 r2 k])
      with Suc show ?thesis by simp
    qed
    from lo hi show ?thesis by simp
  qed
  then show "x \<le> T2 + 1" and "T2 \<le> x" by simp_all
qed

lemma int_truediv_nonneg:
  assumes a: "0 \<le> a" and b: "0 < b" and r: "int_truediv a b = Inr f"
  shows "\<exists>m k. nat_truediv (nat a) (nat b) = Some (m, k)
           \<and> int_of_float f = int (if 0 \<le> k then m * 2 ^ nat k else m div 2 ^ nat (- k))"
proof -
  from r b obtain m k where mk: "nat_truediv (nat \<bar>a\<bar>) (nat \<bar>b\<bar>) = Some (m, k)"
    and f: "f = PyFloat (sgn a * sgn b * int m) k"
    by (auto simp: int_truediv_def split: option.splits)
  have n: "nat \<bar>a\<bar> = nat a" "nat \<bar>b\<bar> = nat b" using a b by simp_all
  have "sgn a * sgn b * int m = int m"
  proof (cases "a = 0")
    case True
    with mk have "m = 0" by (auto dest: nat_truediv_zero)
    then show ?thesis by simp
  next
    case False
    with a b show ?thesis by simp
  qed
  with f have "int_of_float f = (if 0 \<le> k then int m * 2 ^ nat k else int (m div 2 ^ nat (- k)))"
    by (simp add: int_of_float_nonneg)
  then have "int_of_float f = int (if 0 \<le> k then m * 2 ^ nat k else m div 2 ^ nat (- k))"
    by simp
  with mk n show ?thesis by auto
qed

lemma round_trip_axis_general:
  fixes v d :: int
  assumes v: "0 \<le> v" "v \<le> 1000" and d: "1000 \<le> d" "d < 2 ^ 1023"
  shows "\<exists>f1 f2. int_truediv (v * d) 1000 = Inr f1
           \<and> int_truediv (int_of_float f1 * 1000) d = Inr f2
           \<and> \<bar>max 0 (min 1000 (int_of_float f2)) - v\<bar> \<le> 1"
proof -
  define x where "x = nat v"
  define w where "w = nat d"
  have xv: "v = int x" and wd: "d = int w" using v d by (simp_all add: x_def w_def)
  have x: "x \<le> 1000" and w: "1000 \<le> w" using v d by (simp_all add: x_def w_def)
  have d0: "0 < d" using d by simp
  have vd0: "0 \<le> v * d" using v d0 by simp
  have "v * d \<le> 1000 * d" using v(2) by (rule mult_right_mono) (use d0 in simp)
  also have "\<dots> < 1000 * 2 ^ 1023" using d(2) by simp
  finally have "\<bar>v * d\<bar> < 2 ^ 1023 * 1000" using vd0 by simp
  then obtain f1 where f1: "int_truediv (v * d) 1000 = Inr f1"
    using int_truediv_ok [of 1000 "v * d"] by auto
  from int_truediv_nonneg [OF vd0 _ f1]
  obtain m1 k1 where r1: "nat_truediv (nat (v * d)) (nat 1000) = Some (m1, k1)"
    and t1: "int_of_float f1 = int (if 0 \<le> k1 then m1 * 2 ^ nat k1 else m1 div 2 ^ nat (- k1))"
    by auto
  define T1 where "T1 = (if 0 \<le> k1 then m1 * 2 ^ nat k1 else m1 div 2 ^ nat (- k1))"
  have n1: "nat (v * d) = x * w" unfolding xv wd by (simp add: nat_mult_distrib)
  have r1': "nat_truediv (x * w) 1000 = Some (m1, k1)" using r1 unfolding n1 by simp
  have K1: "x * w \<le> T1 * 1000 + w" and K2: "2 * (T1 * 1000) \<le> (2 * x + 1) * w"
    unfolding T1_def by (rule first_division_bounds [OF x w r1'])+
  have t1': "int_of_float f1 = int T1" using t1 by (simp add: T1_def)
  have "(2 * x + 1) * w \<le> 2001 * w" by (rule mult_le_mono1) (use x in simp)
  with K2 have "T1 * 1000 \<le> 1001 * w" by linarith
  then have "int (T1 * 1000) \<le> int (1001 * w)" by (simp only: of_nat_le_iff)
  then have B: "int T1 * 1000 \<le> 1001 * d" by (simp add: wd)
  have "1001 * d < 2 ^ 1023 * d" using d0 by (intro mult_strict_right_mono) simp_all
  with B have "\<bar>int T1 * 1000\<bar> < 2 ^ 1023 * d" by simp
  then obtain f2 where f2: "int_truediv (int T1 * 1000) d = Inr f2"
    using int_truediv_ok [OF d0, of "int T1 * 1000"] by auto
  have B0: "0 \<le> int T1 * 1000" by simp
  from int_truediv_nonneg [OF B0 d0 f2]
  obtain m2 k2 where r2: "nat_truediv (nat (int T1 * 1000)) (nat d) = Some (m2, k2)"
    and t2: "int_of_float f2 = int (if 0 \<le> k2 then m2 * 2 ^ nat k2 else m2 div 2 ^ nat (- k2))"
    by auto
  define T2 where "T2 = (if 0 \<le> k2 then m2 * 2 ^ nat k2 else m2 div 2 ^ nat (- k2))"
  have n2: "nat (int T1 * 1000) = T1 * 1000" by (simp add: nat_mult_distrib)
  have r2': "nat_truediv (T1 * 1000) w = Some (m2, k2)" using r2 unfolding n2 w_def .
  have w0: "0 < w" using w by simp
  have lo: "x \<le> T2 + 1" and hi: "T2 \<le> x"
    unfolding T2_def by (rule second_division_bounds [OF x w0 K1 K2 r2'])+
  have t2': "int_of_float f2 = int T2" using t2 by (simp add: T2_def)
  have "\<bar>max 0 (min 1000 (int T2)) - int x\<bar> \<le> 1" using lo hi x by simp
  then have "\<bar>max 0 (min 1000 (int_of_float f2)) - v\<bar> \<le> 1" by (simp add: t2' xv)
  moreover have "int_truediv (int_of_float f1 * 1000) d = Inr f2" using f2 by (simp add: t1')
  ultimately show ?thesis using f1 by blast
qed

subsection \<open>Validation, parsing and splitting\<close>






lemmas str_eval = str_int_def str_nat.simps digit_char_def


















section \<open>The claims\<close>

text \<open>
  Claim C1, amended. The round trip is within one unit on a screen of at least 1000 by 1000
  pixels (with dimensions below \<open>2 ^ 1023\<close>, inside the range of a float): for such a
  \<open>ScreenSize\<close> and every normalized pair in \<open>[0, 1000]\<close>, \<open>normalized_to_absolute\<close>
  succeeds, \<open>absolute_to_normalized\<close> of its result succeeds, and each component of the
  final pair differs from the original one by at most 1.
\<close>

theorem round_trip_within_one:
  assumes "1000 \<le> width S" "width S < 2 ^ 1023"
    and "1000 \<le> height S" "height S < 2 ^ 1023"
    and "0 \<le> x" "x \<le> 1000" "0 \<le> y" "y \<le> 1000"
  shows "\<exists>abs_x abs_y norm_x norm_y.
           normalized_to_absolute x y S = Inr (abs_x, abs_y)
         \<and> absolute_to_normalized abs_x abs_y S = Inr (norm_x, norm_y)
         \<and> \<bar>norm_x - x\<bar> \<le> 1 \<and> \<bar>norm_y - y\<bar> \<le> 1"
proof -
  from round_trip_axis_general [OF assms(5,6,1,2)]
  obtain fx gx where X: "int_truediv (x * width S) 1000 = Inr fx"
    "int_truediv (int_of_float fx * 1000) (width S) = Inr gx"
    "\<bar>max 0 (min 1000 (int_of_float gx)) - x\<bar> \<le> 1" by blast
  from round_trip_axis_general [OF assms(7,8,3,4)]
  obtain fy gy where Y: "int_truediv (y * height S) 1000 = Inr fy"
    "int_truediv (int_of_float fy * 1000) (height S) = Inr gy"
    "\<bar>max 0 (min 1000 (int_of_float gy)) - y\<bar> \<le> 1" by blast
  have fwd: "normalized_to_absolute x y S = Inr (int_of_float fx, int_of_float fy)"
    unfolding normalized_to_absolute_def
    using validate_normalized_coords_ok [OF assms(5-8)] X(1) Y(1)
    by (simp add: NORMALIZED_RANGE_def)
  have bwd: "absolute_to_normalized (int_of_float fx) (int_of_float fy) S =
     Inr (max 0 (min 1000 (int_of_float gx)), max 0 (min 1000 (int_of_float gy)))"
    unfolding absolute_to_normalized_def using X(2) Y(2)
    by (simp add: NORMALIZED_RANGE_def)
  show ?thesis
    apply (rule exI [of _ "int_of_float fx"])
    apply (rule exI [of _ "int_of_float fy"])
    apply (rule exI [of _ "max 0 (min 1000 (int_of_float gx))"])
    apply (rule exI [of _ "max 0 (min 1000 (int_of_float gy))"])
    apply (intro conjI fwd bwd X(3) Y(3))
    done
qed

theorem round_trip_within_one_witness:
  "\<exists>abs_x abs_y norm_x norm_y.
           normalized_to_absolute 333 777 \<lparr>width = 1080, height = 2400\<rparr> = Inr (abs_x, abs_y)
         \<and> absolute_to_normalized abs_x abs_y \<lparr>width = 1080, height = 2400\<rparr> = Inr (norm_x, norm_y)
         \<and> \<bar>norm_x - 333\<bar> \<le> 1 \<and> \<bar>norm_y - 777\<bar> \<le> 1"
  using round_trip_within_one [of "\<lparr>width = 1080, height = 2400\<rparr>" 333 777] by simp

text \<open>The claim as stated fails on a one-pixel screen: 999 comes back as 0.\<close>

theorem round_trip_within_one_counterexample:
  "normalized_to_absolute 999 999 \<lparr>width = 1, height = 1\<rparr> = Inr (0, 0)
   \<and> absolute_to_normalized 0 0 \<lparr>width = 1, height = 1\<rparr> = Inr (0, 0)
   \<and> \<not> \<bar>0 - 999\<bar> \<le> (1::int)"
  by (simp add: normalized_to_absolute_def absolute_to_normalized_def
        validate_normalized_coords_def int_truediv_def nat_truediv_def floor_log2_quot_def bit_length.simps
        round_half_even_def int_of_float_def Let_def NORMALIZED_RANGE_def)




text \<open>
  Claim C3, amended. For a \<open>ScreenSize\<close> with positive width and height and a normalized
  pair in \<open>[0, 1000]\<close> whose products \<open>norm_x * width\<close> and \<open>norm_y * height\<close> are below
  \<open>2 ^ 53\<close>, \<open>normalized_to_absolute\<close> returns exactly the floor of \<open>norm_x * width / 1000\<close>
  and of \<open>norm_y * height / 1000\<close> (\<open>div\<close> on \<open>int\<close> is floor division), with no rounding
  to nearest.
\<close>

theorem normalized_to_absolute_floor:
  assumes "0 < width S" "0 < height S"
    and "0 \<le> norm_x" "norm_x \<le> 1000" "0 \<le> norm_y" "norm_y \<le> 1000"
    and "norm_x * width S < 2 ^ 53" "norm_y * height S < 2 ^ 53"
  shows "normalized_to_absolute norm_x norm_y S =
           Inr (norm_x * width S div 1000, norm_y * height S div 1000)"
  using assms by (intro normalized_to_absolute_exact) simp_all

theorem normalized_to_absolute_floor_witness:
  "normalized_to_absolute 500 500 \<lparr>width = 1080, height = 2400\<rparr> = Inr (540, 1200)"
  using normalized_to_absolute_floor [of "\<lparr>width = 1080, height = 2400\<rparr>" 500 500] by simp

text \<open>The claim as stated fails at width \<open>2 ^ 53 + 1\<close>: the float quotient is rounded to even.\<close>

theorem normalized_to_absolute_floor_counterexample:
  "normalized_to_absolute 1000 0 \<lparr>width = 9007199254740993, height = 1\<rparr>
     = Inr (9007199254740992, 0)
   \<and> normalized_to_absolute 1000 0 \<lparr>width = 9007199254740993, height = 1\<rparr>
     \<noteq> Inr (1000 * 9007199254740993 div 1000, 0 * 1 div 1000)"
  by (simp add: normalized_to_absolute_def validate_normalized_coords_def int_truediv_def nat_truediv_def floor_log2_quot_def bit_length.simps
        round_half_even_def int_of_float_def Let_def NORMALIZED_RANGE_def)

text \<open>
  Claim C4, amended. For a \<open>ScreenSize\<close> with positive width and height and a normalized
  pair in \<open>[0, 1000]\<close> whose products \<open>x * width\<close> and \<open>y * height\<close> are below \<open>2 ^ 53\<close>,
  \<open>normalized_to_absolute\<close> succeeds and its result lies in \<open>[0, width]\<close> by \<open>[0, height]\<close>.
\<close>

theorem normalized_to_absolute_in_screen:
  assumes "0 < width S" "0 < height S"
    and "0 \<le> x" "x \<le> 1000" "0 \<le> y" "y \<le> 1000"
    and "x * width S < 2 ^ 53" "y * height S < 2 ^ 53"
  shows "\<exists>abs_x abs_y. normalized_to_absolute x y S = Inr (abs_x, abs_y)
           \<and> 0 \<le> abs_x \<and> abs_x \<le> width S \<and> 0 \<le> abs_y \<and> abs_y \<le> height S"
proof -
  have eq: "normalized_to_absolute x y S = Inr (x * width S div 1000, y * height S div 1000)"
    using assms by (intro normalized_to_absolute_exact) simp_all
  have "x * width S \<le> 1000 * width S" using assms by (intro mult_right_mono) simp_all
  then have x1: "x * width S div 1000 \<le> width S" by simp
  have "y * height S \<le> 1000 * height S" using assms by (intro mult_right_mono) simp_all
  then have y1: "y * height S div 1000 \<le> height S" by simp
  have x0: "0 \<le> x * width S div 1000" using assms by (simp add: pos_imp_zdiv_nonneg_iff)
  have y0: "0 \<le> y * height S div 1000" using assms by (simp add: pos_imp_zdiv_nonneg_iff)
  from eq x0 x1 y0 y1 show ?thesis by simp
qed

theorem normalized_to_absolute_in_screen_witness:
  "\<exists>abs_x abs_y. normalized_to_absolute 1000 1000 \<lparr>width = 1080, height = 2400\<rparr> = Inr (abs_x, abs_y)
     \<and> 0 \<le> abs_x \<and> abs_x \<le> 1080 \<and> 0 \<le> abs_y \<and> abs_y \<le> 2400"
  using normalized_to_absolute_in_screen [of "\<lparr>width = 1080, height = 2400\<rparr>" 1000 1000] by simp

text \<open>The claim as stated fails at width \<open>2 ^ 53 + 3\<close>: the result is one pixel beyond the width.\<close>

theorem normalized_to_absolute_in_screen_counterexample:
  "normalized_to_absolute 1000 0 \<lparr>width = 9007199254740995, height = 1\<rparr>
     = Inr (9007199254740996, 0)
   \<and> \<not> 9007199254740996 \<le> width \<lparr>width = 9007199254740995, height = 1\<rparr>"
  by (simp add: normalized_to_absolute_def validate_normalized_coords_def int_truediv_def nat_truediv_def floor_log2_quot_def bit_length.simps
        round_half_even_def int_of_float_def Let_def NORMALIZED_RANGE_def)

text \<open>
  Claim C5, amended. For a \<open>ScreenSize\<close> with positive width and height and every pair of
  integers, negative or beyond the screen, whose quotients \<open>abs_x * 1000 / width\<close> and
  \<open>abs_y * 1000 / height\<close> are below \<open>2 ^ 1023\<close> in magnitude, \<open>absolute_to_normalized\<close> does
  not fail and returns a pair with both components in \<open>[0, 1000]\<close>.
\<close>

theorem absolute_to_normalized_clamped:
  assumes "0 < width S" "0 < height S"
    and "\<bar>abs_x\<bar> * 1000 < 2 ^ 1023 * width S" "\<bar>abs_y\<bar> * 1000 < 2 ^ 1023 * height S"
  shows "\<exists>norm_x norm_y. absolute_to_normalized abs_x abs_y S = Inr (norm_x, norm_y)
           \<and> 0 \<le> norm_x \<and> norm_x \<le> 1000 \<and> 0 \<le> norm_y \<and> norm_y \<le> 1000"
proof -
  have "\<bar>abs_x * 1000\<bar> < 2 ^ 1023 * width S" using assms(3) by (simp add: abs_mult)
  with assms(1) obtain fx where fx: "int_truediv (abs_x * 1000) (width S) = Inr fx"
    using int_truediv_ok [of "width S" "abs_x * 1000"] by blast
  have "\<bar>abs_y * 1000\<bar> < 2 ^ 1023 * height S" using assms(4) by (simp add: abs_mult)
  with assms(2) obtain fy where fy: "int_truediv (abs_y * 1000) (height S) = Inr fy"
    using int_truediv_ok [of "height S" "abs_y * 1000"] by blast
  show ?thesis
    unfolding absolute_to_normalized_def using fx fy by (simp add: NORMALIZED_RANGE_def)
qed

theorem absolute_to_normalized_clamped_witness:
  "\<exists>norm_x norm_y. absolute_to_normalized (- 5) 5000 \<lparr>width = 1080, height = 2400\<rparr> = Inr (norm_x, norm_y)
           \<and> 0 \<le> norm_x \<and> norm_x \<le> 1000 \<and> 0 \<le> norm_y \<and> norm_y \<le> 1000"
  using absolute_to_normalized_clamped [of "\<lparr>width = 1080, height = 2400\<rparr>" "- 5" 5000] by simp

text \<open>The claim as stated fails at \<open>abs_x = 2 ^ 1024\<close>: the quotient does not fit a float.\<close>

theorem absolute_to_normalized_clamped_counterexample:
  "absolute_to_normalized (2 ^ 1024) 0 \<lparr>width = 1, height = 1\<rparr> = Inl OverflowError"
proof -
  have "int_truediv (2 ^ 1024 * 1000) 1 = Inl OverflowError"
    by (rule int_truediv_overflow) simp_all
  then show ?thesis by (simp add: absolute_to_normalized_def NORMALIZED_RANGE_def)
qed

text \<open>
  Claim C6. For four integers in \<open>[0, 1000]\<close>, \<open>validate_normalized_area\<close> fails exactly when
  \<open>x1 > x2\<close> or \<open>y1 > y2\<close> and succeeds otherwise; the error names the violated constraint
  with the two offending values, and its message starts with the caller's context label
  followed by a colon when the label is not empty.
\<close>

theorem validate_normalized_area_order:
  assumes "0 \<le> x1" "x1 \<le> 1000" "0 \<le> y1" "y1 \<le> 1000"
    and "0 \<le> x2" "x2 \<le> 1000" "0 \<le> y2" "y2 \<le> 1000"
  shows "validate_normalized_area x1 y1 x2 y2 context =
           (if x1 > x2 then
              Inl (CoordinateError (ctx_prefix context @ ''Invalid area: x1 ('' @ str_int x1
                     @ '') > x2 ('' @ str_int x2
                     @ ''). Top-left X must be <= bottom-right X''))
            else if y1 > y2 then
              Inl (CoordinateError (ctx_prefix context @ ''Invalid area: y1 ('' @ str_int y1
                     @ '') > y2 ('' @ str_int y2
                     @ ''). Top-left Y must be <= bottom-right Y''))
            else Inr ())
       \<and> (isl (validate_normalized_area x1 y1 x2 y2 context) \<longleftrightarrow> x1 > x2 \<or> y1 > y2)
       \<and> (context \<noteq> [] \<longrightarrow> ctx_prefix context = context @ '': '')"
proof -
  have 1: "validate_normalized_coords x1 y1 (ctx_prefix context @ ''top-left'') = Inr ()"
    using assms(1-4) by (rule validate_normalized_coords_ok)
  have 2: "validate_normalized_coords x2 y2 (ctx_prefix context @ ''bottom-right'') = Inr ()"
    using assms(5-8) by (rule validate_normalized_coords_ok)
  have 3: "context \<noteq> [] \<longrightarrow> ctx_prefix context = context @ '': ''"
    by (simp add: ctx_prefix_def)
  show ?thesis by (simp add: validate_normalized_area_def 1 2 3)
qed

theorem validate_normalized_area_order_witness:
  "validate_normalized_area 5 1 3 2 ''tap'' =
     Inl (CoordinateError ''tap: Invalid area: x1 (5) > x2 (3). Top-left X must be <= bottom-right X'')
   \<and> validate_normalized_area 1 7 3 2 '''' =
     Inl (CoordinateError ''Invalid area: y1 (7) > y2 (2). Top-left Y must be <= bottom-right Y'')
   \<and> validate_normalized_area 1 2 3 4 ''tap'' = Inr ()"
  using validate_normalized_area_order [of 5 1 3 2 "''tap''"] validate_normalized_area_order [of 1 7 3 2 "''''"] validate_normalized_area_order [of 1 2 3 4 "''tap''"]
  by (simp add: str_eval ctx_prefix_def)



text \<open>
  Claim C8. For a valid normalized area (all components in \<open>[0, 1000]\<close>, \<open>x1 \<le> x2\<close>,
  \<open>y1 \<le> y2\<close>) and every \<open>ScreenSize\<close>, \<open>normalized_area_to_center\<close> equals
  \<open>normalized_to_absolute\<close> at the floor-division midpoint \<open>((x1 + x2) div 2, (y1 + y2) div 2)\<close>;
  in particular the full area on a 1080 by 2400 screen has the center \<open>(540, 1200)\<close>.
\<close>

theorem normalized_area_to_center_midpoint:
  assumes "0 \<le> x1" "x1 \<le> 1000" "0 \<le> y1" "y1 \<le> 1000"
    and "0 \<le> x2" "x2 \<le> 1000" "0 \<le> y2" "y2 \<le> 1000"
    and "x1 \<le> x2" "y1 \<le> y2"
  shows "normalized_area_to_center x1 y1 x2 y2 S =
           normalized_to_absolute ((x1 + x2) div 2) ((y1 + y2) div 2) S
       \<and> normalized_area_to_center 0 0 1000 1000 \<lparr>width = 1080, height = 2400\<rparr>
           = Inr (540, 1200)"
proof -
  have v: "validate_normalized_area a b c d ''normalized_area_to_center'' = Inr ()"
    if "0 \<le> a" "a \<le> 1000" "0 \<le> b" "b \<le> 1000" "0 \<le> c" "c \<le> 1000" "0 \<le> d" "d \<le> 1000"
       "a \<le> c" "b \<le> d" for a b c d
    using that by (simp add: validate_normalized_area_def validate_normalized_coords_ok)
  have "normalized_to_absolute 500 500 \<lparr>width = 1080, height = 2400\<rparr>
          = Inr (500 * 1080 div 1000, 500 * 2400 div 1000)"
    using normalized_to_absolute_exact [of 500 500 "\<lparr>width = 1080, height = 2400\<rparr>"] by simp
  then show ?thesis
    using v [OF assms] v [of 0 0 1000 1000]
    by (simp add: normalized_area_to_center_def)
qed

theorem normalized_area_to_center_midpoint_witness:
  "normalized_area_to_center 100 200 301 401 \<lparr>width = 1080, height = 2400\<rparr> = Inr (216, 720)"
proof -
  have "normalized_to_absolute 200 300 \<lparr>width = 1080, height = 2400\<rparr>
          = Inr (200 * 1080 div 1000, 300 * 2400 div 1000)"
    using normalized_to_absolute_exact [of 200 300 "\<lparr>width = 1080, height = 2400\<rparr>"] by simp
  then show ?thesis
    using normalized_area_to_center_midpoint [of 100 200 301 401 "\<lparr>width = 1080, height = 2400\<rparr>"] by simp
qed





end
